theory Spec2Isabelle
  imports Main
begin

section \<open>Data model of package nice\<close>

text \<open>
  A Go \<open>[]byte\<close> is a sequence of 8-bit values; \<open>char\<close> is exactly one byte, so the
  contents of a slice are a \<open>char list\<close>. Go distinguishes the nil slice from an empty
  non-nil one (\<open>EvalArgs\<close> tests \<open>s == nil\<close>, a Handler can do the same with its
  \<open>args\<close>), so a slice value is a \<open>bytes option\<close> with \<open>None\<close> for nil. Both have
  length 0.
\<close>

type_synonym bytes = "char list"
type_synonym slice = "bytes option"

abbreviation bslash :: char where
  "bslash \<equiv> CHR 0x5C"

text \<open>The elements of a possibly nil slice; \<open>length (elems s)\<close> is Go's \<open>len(s)\<close>.\<close>

fun elems :: "'a list option \<Rightarrow> 'a list" where
  "elems None = []"
| "elems (Some b) = b"

text \<open>
  \<open>append(s, xs...)\<close>: appending nothing to the nil slice gives nil, every other
  result is a non-nil slice.
\<close>

definition append_go :: "'a list option \<Rightarrow> 'a list \<Rightarrow> 'a list option" where
  "append_go s xs = (if s = None \<and> xs = [] then None else Some (elems s @ xs))"

text \<open>
  \<open>s[lo:hi]\<close> of a non-nil slice. Every use below has \<open>lo \<le> hi \<le> length s\<close> by the
  guard of the loop around it, where Go does not panic; the result is never nil.
\<close>

definition slice :: "bytes \<Rightarrow> nat \<Rightarrow> nat \<Rightarrow> bytes" where
  "slice s lo hi = take (hi - lo) (drop lo s)"

text \<open>
  \<open>type Error string\<close> implements Go's \<open>error\<close> interface; a consumer's Handler may
  return any other implementation (\<open>Foreign\<close>). A nil \<open>error\<close> is \<open>None\<close>.
\<close>

datatype 'e error = Error string | Foreign 'e

text \<open>
  \<open>type Handler func(r Resolver, args []byte) (interface{}, error)\<close> and
  \<open>type Resolver func(name []byte) Handler\<close> refer to each other through an argument
  position, which no HOL datatype can do. A Handler is therefore represented by what
  it was built from: \<open>ErrorHandler err\<close>, the one Handler this package constructs, or
  a consumer's function, named by a value of the type parameter \<open>'c\<close>. What a
  consumer's function computes is given by a function \<open>run\<close> that every operation
  below takes as its first argument; \<open>invoke\<close> is the Go call \<open>h(r, args)\<close>.
  Handlers are taken to return (the spec calls the evaluator pure and synchronous).
\<close>

datatype ('c, 'e) Handler = ErrorHandler "'e error option" | Closure 'c

type_synonym ('c, 'e) Resolver = "slice \<Rightarrow> ('c, 'e) Handler"

text \<open>
  An \<open>interface{}\<close> result: nil, a \<open>Raw\<close> (\<open>type Raw []byte\<close>), a \<open>Handler\<close> (what
  the type assertion \<open>v.(Handler)\<close> accepts) or any other value of the consumer.
\<close>

datatype ('c, 'e, 'v) iface = GoNil | Raw slice | Fn "('c, 'e) Handler" | Opaque 'v

type_synonym ('c, 'e, 'v) result = "('c, 'e, 'v) iface \<times> 'e error option"

type_synonym ('c, 'e, 'v) closures =
  "'c \<Rightarrow> ('c, 'e) Resolver \<Rightarrow> slice \<Rightarrow> ('c, 'e, 'v) result"

fun invoke ::
  "('c, 'e, 'v) closures \<Rightarrow> ('c, 'e) Handler \<Rightarrow> ('c, 'e) Resolver \<Rightarrow> slice
    \<Rightarrow> ('c, 'e, 'v) result" where
  "invoke run (ErrorHandler err) r args = (GoNil, err)"
| "invoke run (Closure c) r args = run c r args"

section \<open>Eval\<close>

text \<open>
  The scan loop of \<open>Eval\<close> (\<open>for kk := 1; kk < len(s)-1; kk++\<close>) together with the
  statements after it, as a function of the loop variables \<open>kk\<close> and \<open>nesting\<close>.
  The escape case adds one to \<open>kk\<close> before the loop's own increment. \<open>Eval\<close> enters
  the loop only with a non-empty \<open>s\<close>, so \<open>length s - 1\<close> is Go's \<open>len(s)-1\<close>.
\<close>

function Eval_loop ::
  "('c, 'e, 'v) closures \<Rightarrow> ('c, 'e) Resolver \<Rightarrow> bytes \<Rightarrow> nat \<Rightarrow> int
    \<Rightarrow> ('c, 'e, 'v) result" where
  "Eval_loop run r s kk nesting =
    (if kk < length s - 1 then
       (if s ! kk = bslash then Eval_loop run r s (kk + 1 + 1) nesting
        else if s ! kk = CHR ''|'' \<and> nesting = 1 then
          invoke run (r (Some (slice s 1 kk))) r (Some (slice s (kk + 1) (length s - 1)))
        else if s ! kk = CHR ''('' then Eval_loop run r s (kk + 1) (nesting + 1)
        else if s ! kk = CHR '')'' then
          (if nesting - 1 = 0 then (GoNil, Some (Error ''nice: mismatched )''))
           else Eval_loop run r s (kk + 1) (nesting - 1))
        else Eval_loop run r s (kk + 1) nesting)
     else if nesting \<noteq> 1 then (GoNil, Some (Error ''nice: mismatched (''))
     else invoke run (r (Some (slice s 1 (length s - 1)))) r None)"
  by pat_completeness auto
termination
  by (relation "measure (\<lambda>(run, r, s, kk, nesting). length s - kk)") auto

declare Eval_loop.simps [simp del]

fun Eval ::
  "('c, 'e, 'v) closures \<Rightarrow> ('c, 'e) Resolver \<Rightarrow> slice \<Rightarrow> ('c, 'e, 'v) result" where
  "Eval run r None = (Raw None, None)"
| "Eval run r (Some s) =
    (if length s = 0 \<or> s ! 0 \<noteq> CHR ''('' then (Raw (Some s), None)
     else if s ! (length s - 1) \<noteq> CHR '')'' then (GoNil, Some (Error ''nice: missing )''))
     else Eval_loop run r s 1 1)"


section \<open>Resolver.Recurse\<close>

text \<open>
  The receiver \<open>r\<close> is the resolver being wrapped; the name is evaluated with
  \<open>Eval(r, name)\<close>, that is with \<open>r\<close> itself. The type assertion \<open>v.(Handler)\<close>
  succeeds exactly on \<open>Fn\<close>.
\<close>

definition Recurse ::
  "('c, 'e, 'v) closures \<Rightarrow> ('c, 'e) Resolver \<Rightarrow> ('c, 'e) Resolver" where
  "Recurse run r name =
    (if length (elems name) > 0 \<and> elems name ! 0 \<noteq> CHR ''('' then r name
     else (case Eval run r name of
             (v, err) \<Rightarrow>
               if err \<noteq> None then ErrorHandler err
               else (case v of
                       Fn h \<Rightarrow> h
                     | _ \<Rightarrow> ErrorHandler (Some (Error ''nice: not a function'')))))"

section \<open>EvalArgs\<close>

text \<open>
  The loop of \<open>EvalArgs\<close> with the statements after it, as a function of the loop
  variables \<open>kk\<close>, \<open>nesting\<close>, \<open>offset\<close> and \<open>result\<close>. \<open>offset\<close> is 0 or one more
  than the index of an earlier pipe, so \<open>s[offset:kk]\<close> and \<open>s[offset:]\<close> are in
  range; both are non-nil.
\<close>

function EvalArgs_loop ::
  "('c, 'e, 'v) closures \<Rightarrow> ('c, 'e) Resolver \<Rightarrow> bytes \<Rightarrow> nat \<Rightarrow> int \<Rightarrow> nat
    \<Rightarrow> ('c, 'e, 'v) iface list option
    \<Rightarrow> ('c, 'e, 'v) iface list option \<times> 'e error option" where
  "EvalArgs_loop run r s kk nesting offset result =
    (if kk < length s then
       (if s ! kk = bslash then EvalArgs_loop run r s (kk + 1 + 1) nesting offset result
        else if s ! kk = CHR ''|'' \<and> nesting = 0 then
          (case Eval run r (Some (slice s offset kk)) of
             (v, err) \<Rightarrow>
               if err \<noteq> None then (None, err)
               else EvalArgs_loop run r s (kk + 1) nesting (kk + 1) (append_go result [v]))
        else if s ! kk = CHR ''('' then
          EvalArgs_loop run r s (kk + 1) (nesting + 1) offset result
        else if s ! kk = CHR '')'' then
          (if nesting - 1 < 0 then (None, Some (Error ''nice: mismatched )''))
           else EvalArgs_loop run r s (kk + 1) (nesting - 1) offset result)
        else EvalArgs_loop run r s (kk + 1) nesting offset result)
     else if nesting \<noteq> 0 then (None, Some (Error ''nice: mismatched (''))
     else (case Eval run r (Some (slice s offset (length s))) of
             (v, err) \<Rightarrow>
               if err \<noteq> None then (None, err) else (append_go result [v], None)))"
  by pat_completeness auto
termination
  by (relation "measure (\<lambda>(run, r, s, kk, nesting, offset, result). length s - kk)") auto

declare EvalArgs_loop.simps [simp del]

fun EvalArgs ::
  "('c, 'e, 'v) closures \<Rightarrow> ('c, 'e) Resolver \<Rightarrow> slice
    \<Rightarrow> ('c, 'e, 'v) iface list option \<times> 'e error option" where
  "EvalArgs run r None = (None, None)"
| "EvalArgs run r (Some s) = EvalArgs_loop run r s 0 0 0 None"

section \<open>Escape and Unescape\<close>

definition special :: "char \<Rightarrow> bool" where
  "special c = (c = bslash \<or> c = CHR ''('' \<or> c = CHR '')'' \<or> c = CHR ''|'')"

text \<open>
  One round of \<open>for kk, c := range s\<close> in \<open>Escape\<close> per call; \<open>result\<close> is nil until
  the first special byte, when \<open>make([]byte, 0, len(s))\<close> gives an empty non-nil
  slice that receives \<open>s[:kk]\<close>.
\<close>

function Escape_loop :: "bytes \<Rightarrow> nat \<Rightarrow> bytes option \<Rightarrow> bytes option" where
  "Escape_loop s kk result =
    (if kk < length s then
       (let c = s ! kk;
            result1 = (if special c \<and> result = None
                       then append_go (Some []) (slice s 0 kk) else result);
            result2 = (if special c then append_go result1 [bslash] else result1);
            result3 = (if result2 \<noteq> None then append_go result2 [c] else result2)
        in Escape_loop s (kk + 1) result3)
     else result)"
  by pat_completeness auto
termination
  by (relation "measure (\<lambda>(s, kk, result). length s - kk)") auto

declare Escape_loop.simps [simp del]

definition Escape :: "slice \<Rightarrow> slice" where
  "Escape s = (case Escape_loop (elems s) 0 None of Some result \<Rightarrow> Some result | None \<Rightarrow> s)"

text \<open>
  \<open>Unescape\<close> writes into a buffer of fixed length by index and slices with computed
  bounds. A Go index or slice bound out of range is a run-time panic; the model returns
  it as a value, so that "does not panic" is part of what is proved.
\<close>

datatype panic = IndexOutOfRange | SliceBoundsOutOfRange

text \<open>\<open>result[offset] = c\<close>\<close>

definition store :: "bytes \<Rightarrow> nat \<Rightarrow> char \<Rightarrow> panic + bytes" where
  "store buf i c = (if i < length buf then Inr (buf[i := c]) else Inl IndexOutOfRange)"

text \<open>
  \<open>result = make([]byte, len(s)); copy(result[0:len(s)], s[:kk-1])\<close>: a zeroed buffer
  whose first \<open>kk-1\<close> bytes are then those of \<open>s\<close>. \<open>s[:kk-1]\<close> panics for \<open>kk = 0\<close>.
\<close>

definition make_copy :: "bytes \<Rightarrow> nat \<Rightarrow> panic + bytes" where
  "make_copy s kk =
    (if kk < 1 then Inl SliceBoundsOutOfRange
     else Inr (slice s 0 (kk - 1) @ drop (kk - 1) (replicate (length s) (CHR 0x00))))"

text \<open>
  One round of \<open>for kk, c := range s\<close> in \<open>Unescape\<close> per call. The second case of the
  \<open>switch\<close> falls through into the body of the third.
\<close>

function Unescape_loop ::
  "bytes \<Rightarrow> nat \<Rightarrow> bytes option \<Rightarrow> nat \<Rightarrow> bool \<Rightarrow> panic + (bytes option \<times> nat)" where
  "Unescape_loop s kk result offset slash =
    (if kk < length s then
       (let c = s ! kk; slash' = (\<not> slash \<and> c = bslash) in
        if \<not> slash \<and> c = bslash then Unescape_loop s (kk + 1) result offset slash'
        else if slash \<and> result = None then
          (case make_copy s kk of
             Inl p \<Rightarrow> Inl p
           | Inr buf \<Rightarrow>
              (case store buf (kk - 1) c of
                 Inl p \<Rightarrow> Inl p
               | Inr buf' \<Rightarrow> Unescape_loop s (kk + 1) (Some buf') (kk - 1 + 1) slash'))
        else (case result of
                Some buf \<Rightarrow>
                  (case store buf offset c of
                     Inl p \<Rightarrow> Inl p
                   | Inr buf' \<Rightarrow> Unescape_loop s (kk + 1) (Some buf') (offset + 1) slash')
              | None \<Rightarrow> Unescape_loop s (kk + 1) result offset slash'))
     else Inr (result, offset))"
  by pat_completeness auto
termination
  by (relation "measure (\<lambda>(s, kk, result, offset, slash). length s - kk)") auto

declare Unescape_loop.simps [simp del]

definition Unescape :: "slice \<Rightarrow> panic + slice" where
  "Unescape s =
    (case Unescape_loop (elems s) 0 None 0 False of
       Inl p \<Rightarrow> Inl p
     | Inr (None, offset) \<Rightarrow> Inr s
     | Inr (Some buf, offset) \<Rightarrow>
         if offset \<le> length buf then Inr (Some (slice buf 0 offset))
         else Inl SliceBoundsOutOfRange)"

section \<open>The scans as the specification describes them\<close>

text \<open>
  The specification's description of the scan of a call's interior (the bytes between
  the outer brackets), on the list of bytes that remain: an escape byte skips the
  byte after it, an unescaped pipe at nesting 1 ends the scan, brackets count, and a
  close bracket that brings the counter to 0 ends the scan. \<open>i\<close> is the position
  reached, \<open>n\<close> the nesting counter.
\<close>

datatype scan_result = TopPipe nat | CloseAtZero | ScanEnd int

fun scan :: "nat \<Rightarrow> int \<Rightarrow> bytes \<Rightarrow> scan_result" where
  "scan i n [] = ScanEnd n"
| "scan i n (c # cs) =
    (if c = bslash then (case cs of [] \<Rightarrow> ScanEnd n | d # ds \<Rightarrow> scan (i + 2) n ds)
     else if c = CHR ''|'' \<and> n = 1 then TopPipe i
     else if c = CHR ''('' then scan (i + 1) (n + 1) cs
     else if c = CHR '')'' then (if n - 1 = 0 then CloseAtZero else scan (i + 1) (n - 1) cs)
     else scan (i + 1) n cs)"

text \<open>
  The specification's description of an argument list: its top-level pipes are the
  unescaped pipes met at nesting 0, and they cut it into segments. \<open>top_pipes\<close> counts
  the former, \<open>segments\<close> lists the latter in order (\<open>cur\<close> is the part of the current
  segment already passed).
\<close>

fun top_pipes :: "int \<Rightarrow> bytes \<Rightarrow> nat" where
  "top_pipes n [] = 0"
| "top_pipes n (c # cs) =
    (if c = bslash then (case cs of [] \<Rightarrow> 0 | d # ds \<Rightarrow> top_pipes n ds)
     else if c = CHR ''|'' \<and> n = 0 then 1 + top_pipes n cs
     else if c = CHR ''('' then top_pipes (n + 1) cs
     else if c = CHR '')'' then top_pipes (n - 1) cs
     else top_pipes n cs)"

fun segments :: "int \<Rightarrow> bytes \<Rightarrow> bytes \<Rightarrow> bytes list" where
  "segments n cur [] = [cur]"
| "segments n cur (c # cs) =
    (if c = bslash then
       (case cs of [] \<Rightarrow> [cur @ [c]] | d # ds \<Rightarrow> segments n (cur @ [c, d]) ds)
     else if c = CHR ''|'' \<and> n = 0 then cur # segments n [] cs
     else if c = CHR ''('' then segments (n + 1) (cur @ [c]) cs
     else if c = CHR '')'' then segments (n - 1) (cur @ [c]) cs
     else segments n (cur @ [c]) cs)"

text \<open>
  The specification's description of the escaper: \<open>escaped\<close> puts an escape byte
  before every special byte; \<open>unescaped\<close> drops every escape byte and keeps the byte
  after it (\<open>slash\<close> says that the byte before was such an escape byte);
  \<open>escape_pair\<close> says that some escape byte is followed by a byte.
\<close>

fun escaped :: "bytes \<Rightarrow> bytes" where
  "escaped [] = []"
| "escaped (c # cs) = (if special c then bslash # c # escaped cs else c # escaped cs)"

fun unescaped :: "bool \<Rightarrow> bytes \<Rightarrow> bytes" where
  "unescaped slash [] = []"
| "unescaped slash (c # cs) =
    (if \<not> slash \<and> c = bslash then unescaped True cs else c # unescaped False cs)"

fun escape_pair :: "bool \<Rightarrow> bytes \<Rightarrow> bool" where
  "escape_pair slash [] = False"
| "escape_pair slash (c # cs) =
    (if slash then True else if c = bslash then escape_pair True cs else escape_pair False cs)"

section \<open>Consumers used to evaluate the operations at concrete inputs\<close>

text \<open>
  The resolver of \<open>TestMissingFunction\<close>: every name resolves to
  \<open>ErrorHandler(errors.New("some error"))\<close>.
\<close>

definition TestMissingFunction_r :: "(nat, string) Resolver" where
  "TestMissingFunction_r name = ErrorHandler (Some (Foreign ''some error''))"

text \<open>
  A small consumer with two functions: number 0 returns its raw \<open>args\<close> unchanged as
  a \<open>Raw\<close>, any other number returns function 0 as a Handler (as the function behind
  the name \<open>x\<close> in \<open>TestRecursion\<close> returns another Handler). Its resolver maps the
  name \<open>x\<close> to function 1 and every other name to function 0.
\<close>

fun probe_run :: "(nat, string, unit) closures" where
  "probe_run c r args = (if c = 0 then (Raw args, None) else (Fn (Closure 0), None))"

definition probe_r :: "(nat, string) Resolver" where
  "probe_r name = (if name = Some ''x'' then Closure 1 else Closure 0)"

section \<open>The loop of Eval computes the scan\<close>

lemma Eval_loop_exit:
  "\<not> kk < length s - 1 \<Longrightarrow>
   Eval_loop run r s kk n =
     (if n \<noteq> 1 then (GoNil, Some (Error ''nice: mismatched (''))
      else invoke run (r (Some (slice s 1 (length s - 1)))) r None)"
  by (subst Eval_loop.simps) simp

lemma slice_interior: "slice (a # xs @ [b]) 1 (length (a # xs @ [b]) - 1) = xs"
  by (simp add: slice_def)

lemma Eval_loop_scan:
  "i = length pre \<Longrightarrow> body = pre @ suf \<Longrightarrow>
   Eval_loop run r (CHR ''('' # body @ '')'') (Suc i) n =
     (case scan i n suf of
        TopPipe k \<Rightarrow> invoke run (r (Some (take k body))) r (Some (drop (Suc k) body))
      | CloseAtZero \<Rightarrow> (GoNil, Some (Error ''nice: mismatched )''))
      | ScanEnd m \<Rightarrow>
          if m \<noteq> 1 then (GoNil, Some (Error ''nice: mismatched (''))
          else invoke run (r (Some body)) r None)"
proof (induction i n suf arbitrary: pre rule: scan.induct)
  case (1 i n)
  then show ?case
    using slice_interior [of "CHR ''(''" body "CHR '')''"]
    by (simp add: Eval_loop_exit)
next
  case (2 i n c cs)
  let ?s = "CHR ''('' # body @ '')''"
  have at: "?s ! Suc i = c" using 2 by (simp add: nth_append)
  have lt: "Suc i < length ?s - 1" using 2 by simp
  have whole: "slice ?s 1 (length ?s - 1) = body"
    using slice_interior [of "CHR ''(''" body "CHR '')''"] by simp
  show ?case
  proof (cases "c = bslash")
    case True
    have step: "Eval_loop run r ?s (Suc i) n = Eval_loop run r ?s (Suc (i + 2)) n"
      using True at lt by (subst Eval_loop.simps) simp
    show ?thesis
    proof (cases cs)
      case Nil
      have "\<not> Suc (i + 2) < length ?s - 1" using 2 Nil by simp
      from Eval_loop_exit [OF this, of run r n]
      have "Eval_loop run r ?s (Suc (i + 2)) n =
          (if n \<noteq> 1 then (GoNil, Some (Error ''nice: mismatched (''))
           else invoke run (r (Some body)) r None)"
        unfolding whole .
      then show ?thesis using step True Nil by simp
    next
      case (Cons d ds)
      have "i + 2 = length (pre @ [c, d])" using 2 by simp
      moreover have "body = (pre @ [c, d]) @ ds" using 2 Cons by simp
      ultimately show ?thesis
        using "2.IH"(1) [OF True Cons, of "pre @ [c, d]"] step True Cons by simp
    qed
  next
    case False
    note nb = False
    show ?thesis
    proof (cases "c = CHR ''|'' \<and> n = 1")
      case True
      have "slice ?s 1 (Suc i) = take i body" using 2 by (simp add: slice_def)
      moreover have "slice ?s (Suc i + 1) (length ?s - 1) = drop (Suc i) body"
        using 2 by (simp add: slice_def)
      ultimately show ?thesis
        using True nb at lt by (subst Eval_loop.simps) simp
    next
      case False
      note np = False
      have i': "i + 1 = length (pre @ [c])" using 2 by simp
      have b': "body = (pre @ [c]) @ cs" using 2 by simp
      show ?thesis
      proof (cases "c = CHR ''(''")
        case True
        have "Eval_loop run r ?s (Suc i) n = Eval_loop run r ?s (Suc (i + 1)) (n + 1)"
          using True at lt np by (subst Eval_loop.simps) auto
        then show ?thesis
          using "2.IH"(2) [OF nb np True i' b'] True np by simp
      next
        case False
        note no = False
        show ?thesis
        proof (cases "c = CHR '')''")
          case True
          note cl = True
          show ?thesis
          proof (cases "n - 1 = 0")
            case True
            then show ?thesis
              using cl at lt by (subst Eval_loop.simps) simp
          next
            case False
            have "Eval_loop run r ?s (Suc i) n = Eval_loop run r ?s (Suc (i + 1)) (n - 1)"
              using cl False at lt by (subst Eval_loop.simps) simp
            then show ?thesis
              using "2.IH"(3) [OF nb np no cl False i' b'] cl False by simp
          qed
        next
          case False
          have "Eval_loop run r ?s (Suc i) n = Eval_loop run r ?s (Suc (i + 1)) n"
            using False nb np no at lt by (subst Eval_loop.simps) auto
          then show ?thesis
            using "2.IH"(4) [OF nb np no False i' b'] False nb np no by auto
        qed
      qed
    qed
  qed
qed

lemma Eval_call_scan:
  "Eval run r (Some (CHR ''('' # body @ '')'')) =
     (case scan 0 1 body of
        TopPipe k \<Rightarrow> invoke run (r (Some (take k body))) r (Some (drop (Suc k) body))
      | CloseAtZero \<Rightarrow> (GoNil, Some (Error ''nice: mismatched )''))
      | ScanEnd m \<Rightarrow>
          if m \<noteq> 1 then (GoNil, Some (Error ''nice: mismatched (''))
          else invoke run (r (Some body)) r None)"
  using Eval_loop_scan [of 0 "[]" body body run r 1] by (simp add: nth_append)

text \<open>Facts about the scan itself.\<close>

lemma scan_TopPipe_append:
  "scan i n xs = TopPipe k \<Longrightarrow> scan i n (xs @ ys) = TopPipe k"
proof (induction i n xs rule: scan.induct)
  case (1 i n)
  then show ?case by simp
next
  case (2 i n c cs)
  show ?case
  proof (cases "c = bslash")
    case True
    then show ?thesis using 2 by (cases cs) auto
  next
    case False
    then show ?thesis using 2 by (auto split: if_splits)
  qed
qed

lemma scan_ScanEnd_bslash:
  "scan i n xs = ScanEnd m \<Longrightarrow> scan i n (xs @ [bslash]) = ScanEnd m"
proof (induction i n xs rule: scan.induct)
  case (1 i n)
  then show ?case by simp
next
  case (2 i n c cs)
  show ?case
  proof (cases "c = bslash")
    case True
    then show ?thesis using 2 by (cases cs) auto
  next
    case False
    then show ?thesis using 2 by (auto split: if_splits)
  qed
qed

lemma scan_pipe_last:
  "scan i n (xs @ ''|'') = TopPipe (i + length xs) \<Longrightarrow> scan i n xs = ScanEnd 1"
proof (induction i n xs rule: scan.induct)
  case (1 i n)
  then show ?case by (simp split: if_splits)
next
  case (2 i n c cs)
  show ?case
  proof (cases "c = bslash")
    case True
    then show ?thesis using 2 by (cases cs) auto
  next
    case False
    then show ?thesis using 2 by (auto split: if_splits)
  qed
qed

section \<open>Atomic expressions and the missing close bracket\<close>

text \<open>
  C8. For every resolver \<open>r\<close> and every byte sequence \<open>x\<close> (nil included) that is
  empty or whose first byte is not the open bracket, \<open>Eval(r, x)\<close> returns \<open>Raw(x)\<close>
  and no error. The result is the same for every resolver and every consumer: neither
  is consulted.
\<close>

theorem Eval_atomic:
  assumes "elems x = [] \<or> hd (elems x) \<noteq> CHR ''(''"
  shows "Eval run r x = (Raw x, None)"
proof (cases x)
  case None
  then show ?thesis by simp
next
  case (Some b)
  with assms show ?thesis by (cases b) auto
qed

theorem Eval_atomic_witness:
  "hd (elems (Some ''json:null'')) \<noteq> CHR ''(''
   \<and> Eval probe_run probe_r (Some ''json:null'') = (Raw (Some ''json:null''), None)
   \<and> Eval probe_run probe_r (Some []) = (Raw (Some []), None)
   \<and> Eval probe_run probe_r None = (Raw None, None)"
  using Eval_atomic [of "Some ''json:null''" probe_run probe_r]
    Eval_atomic [of "Some []" probe_run probe_r]
    Eval_atomic [of None probe_run probe_r]
  by simp

text \<open>
  C9. For every resolver \<open>r\<close> and every non-empty byte sequence \<open>s\<close> whose first byte
  is the open bracket and whose last byte is not the close bracket, \<open>Eval(r, s)\<close>
  returns a nil value and the error \<open>nice: missing )\<close>, whatever the resolver and the
  consumer are.
\<close>

theorem Eval_missing_close:
  assumes "s \<noteq> []" and "hd s = CHR ''(''" and "last s \<noteq> CHR '')''"
  shows "Eval run r (Some s) = (GoNil, Some (Error ''nice: missing )''))"
proof -
  from assms(1,2) have "s ! 0 = CHR ''(''" by (cases s) auto
  moreover from assms(1) have "s ! (length s - 1) = last s" by (simp add: last_conv_nth)
  ultimately show ?thesis using assms(1,3) by simp
qed

theorem Eval_missing_close_witness:
  "hd ''(x'' = CHR ''('' \<and> last ''(x'' \<noteq> CHR '')''
   \<and> Eval probe_run probe_r (Some ''(x'') = (GoNil, Some (Error ''nice: missing )''))
   \<and> Eval probe_run TestMissingFunction_r (Some ''('') = (GoNil, Some (Error ''nice: missing )''))"
  using Eval_missing_close [of "''(x''" probe_run probe_r]
    Eval_missing_close [of "''(''" probe_run TestMissingFunction_r]
  by simp

section \<open>Calls: the split at the first top-level pipe\<close>

text \<open>
  C1. For every resolver \<open>r\<close> and every input \<open>(\<close> name \<open>|\<close> rest \<open>)\<close> in which the
  scan of name, started at nesting 1, reaches the pipe after name at nesting 1 (no
  escape byte swallows that pipe, no earlier pipe is met at nesting 1, and nesting never
  falls to 0), \<open>Eval\<close> returns what the Handler resolved from name returns on the
  bytes of rest, which are handed over as they are. Nothing in rest is looked at by
  \<open>Eval\<close>: whatever rest contains, an error can only come from the Handler, and
  with a Handler that returns no error on any arguments there is none.
\<close>

theorem Eval_top_pipe:
  assumes "scan 0 1 (name @ ''|'') = TopPipe (length name)"
  shows "Eval run r (Some (''('' @ name @ ''|'' @ rest @ '')'')) =
           invoke run (r (Some name)) r (Some rest)
   \<and> ((\<forall>args. snd (invoke run (r (Some name)) r args) = None) \<longrightarrow>
        snd (Eval run r (Some (''('' @ name @ ''|'' @ rest @ '')''))) = None)"
proof -
  have "scan 0 1 ((name @ ''|'') @ rest) = TopPipe (length name)"
    using assms by (rule scan_TopPipe_append)
  then have "Eval run r (Some (''('' @ name @ ''|'' @ rest @ '')'')) =
           invoke run (r (Some name)) r (Some rest)"
    using Eval_call_scan [of run r "name @ ''|'' @ rest"] by simp
  then show ?thesis by simp
qed

text \<open>
  At \<open>(add|x|(())\<close> the arguments \<open>x|(()\<close> hold an unbalanced sub-expression; the
  Handler that returns its raw arguments gets them unchanged and there is no error.
\<close>

theorem Eval_top_pipe_witness:
  "scan 0 1 (''add'' @ ''|'') = TopPipe (length ''add'')
   \<and> (\<forall>args. snd (invoke probe_run (probe_r (Some ''add'')) probe_r args) = None)
   \<and> Eval probe_run probe_r (Some (''('' @ ''add'' @ ''|'' @ ''x|(()'' @ '')'')) =
       (Raw (Some ''x|(()''), None)"
  using Eval_top_pipe [of "''add''" probe_run probe_r "''x|(()''"]
  by (simp add: probe_r_def)

text \<open>
  C5. Absent and empty argument lists are distinct. For a name whose scan reaches a
  pipe put after it (as for the plain name in \<open>(name)\<close> and \<open>(name|)\<close>),
  \<open>Eval(r, "(name)")\<close> calls the resolved Handler with nil arguments, and
  \<open>Eval(r, "(name|)")\<close> calls it with an empty non-nil byte sequence. \<open>EvalArgs\<close> of
  nil returns a nil sequence and no error; \<open>EvalArgs\<close> of the empty byte sequence
  returns exactly one value, the \<open>Raw\<close> of the empty sequence.
\<close>

theorem absent_and_empty_args:
  assumes "scan 0 1 (name @ ''|'') = TopPipe (length name)"
  shows "Eval run r (Some (''('' @ name @ '')'')) = invoke run (r (Some name)) r None
   \<and> Eval run r (Some (''('' @ name @ ''|'' @ '')'')) = invoke run (r (Some name)) r (Some [])
   \<and> EvalArgs run r None = (None, None)
   \<and> EvalArgs run r (Some []) = (Some [Raw (Some [])], None)"
proof -
  have "scan 0 1 name = ScanEnd 1" using assms scan_pipe_last [of 0 1 name] by simp
  then have "Eval run r (Some (''('' @ name @ '')'')) = invoke run (r (Some name)) r None"
    using Eval_call_scan [of run r name] by simp
  moreover have "Eval run r (Some (''('' @ name @ ''|'' @ '')'')) =
      invoke run (r (Some name)) r (Some [])"
    using assms Eval_call_scan [of run r "name @ ''|''"] by simp
  moreover have "EvalArgs run r (Some []) = (Some [Raw (Some [])], None)"
    by (simp add: EvalArgs_loop.simps slice_def append_go_def)
  ultimately show ?thesis by simp
qed

text \<open>The Handler that returns its raw arguments tells the two apart.\<close>

theorem absent_and_empty_args_witness:
  "scan 0 1 (''name'' @ ''|'') = TopPipe (length ''name'')
   \<and> Eval probe_run probe_r (Some ''(name)'') = (Raw None, None)
   \<and> Eval probe_run probe_r (Some ''(name|)'') = (Raw (Some []), None)
   \<and> EvalArgs probe_run probe_r None = (None, None)
   \<and> EvalArgs probe_run probe_r (Some []) = (Some [Raw (Some [])], None)"
  using absent_and_empty_args [of "''name''" probe_run probe_r]
  by (simp add: probe_r_def)

section \<open>Calls: bracket errors\<close>

text \<open>
  C6. For an input \<open>(\<close> body \<open>)\<close>: if the scan of body, started at nesting 1, meets an
  unescaped close bracket that brings nesting to 0 before it meets a pipe at nesting 1,
  \<open>Eval\<close> fails with \<open>nice: mismatched )\<close>; if the scan reaches the end of body
  without such a pipe and with nesting other than 1, \<open>Eval\<close> fails with
  \<open>nice: mismatched (\<close>.
\<close>

theorem Eval_mismatched:
  "(scan 0 1 body = CloseAtZero \<longrightarrow>
      Eval run r (Some (''('' @ body @ '')'')) = (GoNil, Some (Error ''nice: mismatched )'')))
   \<and> (\<forall>m. scan 0 1 body = ScanEnd m \<and> m \<noteq> 1 \<longrightarrow>
      Eval run r (Some (''('' @ body @ '')'')) = (GoNil, Some (Error ''nice: mismatched ('')))"
  using Eval_call_scan [of run r body] by simp

text \<open>The inputs \<open>(x))\<close> and \<open>((x)\<close> of \<open>TestMismatched\<close>.\<close>

theorem Eval_mismatched_witness:
  "scan 0 1 ''x)'' = CloseAtZero
   \<and> Eval probe_run probe_r (Some ''(x))'') = (GoNil, Some (Error ''nice: mismatched )''))
   \<and> scan 0 1 ''(x'' = ScanEnd 2
   \<and> Eval probe_run probe_r (Some ''((x)'') = (GoNil, Some (Error ''nice: mismatched (''))"
  using Eval_mismatched [of "''x)''" probe_run probe_r]
    Eval_mismatched [of "''(x''" probe_run probe_r]
  by simp

section \<open>Calls: an escape byte before the final bracket\<close>

text \<open>
  C10. An escape byte just before the final close bracket does not protect it. For an
  input made of the open bracket, body, the escape byte and the close bracket, where
  the scan of body meets no pipe at nesting 1 and ends at nesting 1, \<open>Eval\<close> takes the final bracket as the end of the call and calls the
  Handler resolved from body followed by the escape byte, with nil arguments. In
  particular \<open>Eval\<close> of the three bytes open bracket, escape byte, close bracket calls
  the Handler resolved from the single escape byte.
\<close>

theorem Eval_trailing_escape:
  "(scan 0 1 body = ScanEnd 1 \<longrightarrow>
      Eval run r (Some (''('' @ body @ [bslash] @ '')'')) =
        invoke run (r (Some (body @ [bslash]))) r None)
   \<and> Eval run r (Some (''('' @ [bslash] @ '')'')) = invoke run (r (Some [bslash])) r None"
  using Eval_call_scan [of run r "body @ [bslash]"] Eval_call_scan [of run r "[bslash]"]
    scan_ScanEnd_bslash [of 0 1 body 1]
  by simp

theorem Eval_trailing_escape_witness:
  "scan 0 1 ''f(a)'' = ScanEnd 1
   \<and> Eval probe_run probe_r (Some (''('' @ ''f(a)'' @ [bslash] @ '')'')) = (Raw None, None)
   \<and> Eval probe_run TestMissingFunction_r (Some (''('' @ [bslash] @ '')'')) =
       (GoNil, Some (Foreign ''some error''))"
  using Eval_trailing_escape [of "''f(a)''" probe_run probe_r]
    Eval_trailing_escape [of "[]" probe_run TestMissingFunction_r]
  by (simp add: probe_r_def TestMissingFunction_r_def)

section \<open>Resolver.Recurse: which names are delegated\<close>

text \<open>
  C7 as the specification words it has \<open>Recurse\<close> hand every name that does not
  start with the open bracket to the wrapped resolver. The guard of \<open>Recurse\<close> is
  \<open>len(name) > 0 && name[0] != '('\<close>: the empty name is not handed over but evaluated,
  \<open>Eval\<close> returns it as a \<open>Raw\<close>, and the result is the Handler of
  \<open>nice: not a function\<close>. With the resolver of \<open>TestMissingFunction\<close>, which
  answers every name with the Handler of \<open>some error\<close>, the two differ.
\<close>

theorem Recurse_empty_name_counterexample:
  "Recurse probe_run TestMissingFunction_r (Some []) =
     ErrorHandler (Some (Error ''nice: not a function''))
   \<and> TestMissingFunction_r (Some []) = ErrorHandler (Some (Foreign ''some error''))
   \<and> Recurse probe_run TestMissingFunction_r (Some []) \<noteq> TestMissingFunction_r (Some [])"
  by (simp add: Recurse_def TestMissingFunction_r_def)

text \<open>
  C7, amended. For every resolver \<open>r\<close> and every name: if the name is not empty and
  does not start with the open bracket, \<open>Recurse\<close> returns \<open>r(name)\<close>. Otherwise,
  that is for a name that starts with the open bracket and for the empty or nil name,
  \<open>Recurse\<close> evaluates the name with \<open>Eval\<close> and the wrapped resolver \<open>r\<close>: an
  error from the evaluation gives the Handler that returns this error, a result that
  is a Handler is returned as it is, and any other result gives the Handler that
  returns \<open>nice: not a function\<close>.
\<close>

theorem Recurse_cases:
  "(elems name \<noteq> [] \<and> hd (elems name) \<noteq> CHR ''('' \<longrightarrow> Recurse run r name = r name)
   \<and> (\<not> (elems name \<noteq> [] \<and> hd (elems name) \<noteq> CHR ''('') \<longrightarrow>
        (\<forall>v e. Eval run r name = (v, Some e) \<longrightarrow> Recurse run r name = ErrorHandler (Some e))
      \<and> (\<forall>h. Eval run r name = (Fn h, None) \<longrightarrow> Recurse run r name = h)
      \<and> (\<forall>v. Eval run r name = (v, None) \<and> (\<forall>h. v \<noteq> Fn h) \<longrightarrow>
            Recurse run r name = ErrorHandler (Some (Error ''nice: not a function''))))"
proof -
  have eq: "Recurse run r name =
      (if elems name \<noteq> [] \<and> hd (elems name) \<noteq> CHR ''('' then r name
       else (case Eval run r name of
               (v, err) \<Rightarrow>
                 if err \<noteq> None then ErrorHandler err
                 else (case v of
                         Fn h \<Rightarrow> h
                       | _ \<Rightarrow> ErrorHandler (Some (Error ''nice: not a function'')))))"
    by (cases "elems name") (simp_all add: Recurse_def)
  have a: "elems name \<noteq> [] \<and> hd (elems name) \<noteq> CHR ''('' \<longrightarrow> Recurse run r name = r name"
    by (simp add: eq)
  have b: "Recurse run r name = ErrorHandler (Some e)"
    if "\<not> (elems name \<noteq> [] \<and> hd (elems name) \<noteq> CHR ''('')" "Eval run r name = (v, Some e)"
    for v e
    using that by (auto simp: eq)
  have c: "Recurse run r name = h"
    if "\<not> (elems name \<noteq> [] \<and> hd (elems name) \<noteq> CHR ''('')" "Eval run r name = (Fn h, None)"
    for h
    using that by (auto simp: eq)
  have d: "Recurse run r name = ErrorHandler (Some (Error ''nice: not a function''))"
    if "\<not> (elems name \<noteq> [] \<and> hd (elems name) \<noteq> CHR ''('')" "Eval run r name = (v, None)"
      "\<forall>h. v \<noteq> Fn h" for v
    using that by (cases v) (auto simp: eq)
  show ?thesis using a b c d by blast
qed

text \<open>
  A plain name, a name whose evaluation fails, a name that evaluates to a Handler, a
  name that evaluates to a \<open>Raw\<close>, and the empty name.
\<close>

theorem Recurse_cases_witness:
  "Recurse probe_run TestMissingFunction_r (Some ''x'') = TestMissingFunction_r (Some ''x'')
   \<and> Eval probe_run probe_r (Some ''(x'') = (GoNil, Some (Error ''nice: missing )''))
   \<and> Recurse probe_run probe_r (Some ''(x'') = ErrorHandler (Some (Error ''nice: missing )''))
   \<and> Eval probe_run probe_r (Some ''(x)'') = (Fn (Closure 0), None)
   \<and> Recurse probe_run probe_r (Some ''(x)'') = Closure 0
   \<and> Eval probe_run probe_r (Some ''(y)'') = (Raw None, None)
   \<and> Recurse probe_run probe_r (Some ''(y)'') = ErrorHandler (Some (Error ''nice: not a function''))
   \<and> Eval probe_run probe_r (Some []) = (Raw (Some []), None)
   \<and> Recurse probe_run probe_r (Some []) = ErrorHandler (Some (Error ''nice: not a function''))"
proof -
  have e1: "Eval probe_run probe_r (Some ''(x'') = (GoNil, Some (Error ''nice: missing )''))"
    by simp
  have e2: "Eval probe_run probe_r (Some ''(x)'') = (Fn (Closure 0), None)"
    by (simp add: Eval_loop.simps slice_def probe_r_def)
  have e3: "Eval probe_run probe_r (Some ''(y)'') = (Raw None, None)"
    by (simp add: Eval_loop.simps slice_def probe_r_def)
  have e4: "Eval probe_run probe_r (Some []) = (Raw (Some []), None)"
    by simp
  show ?thesis
    using Recurse_cases [of "Some ''x''" probe_run TestMissingFunction_r]
      Recurse_cases [of "Some ''(x''" probe_run probe_r]
      Recurse_cases [of "Some ''(x)''" probe_run probe_r]
      Recurse_cases [of "Some ''(y)''" probe_run probe_r]
      Recurse_cases [of "Some []" probe_run probe_r]
      e1 e2 e3 e4
    by simp
qed

section \<open>EvalArgs: one value per segment\<close>

text \<open>The segments of an argument list are one more than its top-level pipes, and
  joined by pipes they give the argument list back.\<close>

lemma segments_length: "length (segments n cur s) = top_pipes n s + 1"
proof (induction n cur s rule: segments.induct)
  case (1 n cur)
  then show ?case by simp
next
  case (2 n cur c cs)
  show ?case
  proof (cases "c = bslash")
    case True
    then show ?thesis using 2 by (cases cs) auto
  next
    case False
    then show ?thesis using 2 by auto
  qed
qed

lemma segments_join:
  "concat (map (\<lambda>seg. seg @ ''|'') (segments n cur s)) = cur @ s @ ''|''"
proof (induction n cur s rule: segments.induct)
  case (1 n cur)
  then show ?case by simp
next
  case (2 n cur c cs)
  show ?case
  proof (cases "c = bslash")
    case True
    then show ?thesis using 2 by (cases cs) auto
  next
    case False
    then show ?thesis using 2 by auto
  qed
qed

lemma slice_snoc:
  "offset \<le> kk \<Longrightarrow> kk < length s \<Longrightarrow>
   slice s offset (Suc kk) = slice s offset kk @ [s ! kk]"
  by (simp add: slice_def Suc_diff_le take_Suc_conv_app_nth)

lemma EvalArgs_loop_exit:
  "\<not> kk < length s \<Longrightarrow>
   EvalArgs_loop run r s kk n offset result =
     (if n \<noteq> 0 then (None, Some (Error ''nice: mismatched (''))
      else (case Eval run r (Some (slice s offset (length s))) of
              (v, err) \<Rightarrow> if err \<noteq> None then (None, err) else (append_go result [v], None)))"
  by (subst EvalArgs_loop.simps) simp

lemma elems_append_go [simp]: "elems (append_go result [v]) = elems result @ [v]"
  by (simp add: append_go_def)

lemma EvalArgs_loop_segments:
  "offset \<le> kk \<Longrightarrow> snd (EvalArgs_loop run r s kk n offset result) = None \<Longrightarrow>
   fst (EvalArgs_loop run r s kk n offset result) =
     Some (elems result @
           map (\<lambda>seg. fst (Eval run r (Some seg))) (segments n (slice s offset kk) (drop kk s)))
   \<and> (\<forall>seg \<in> set (segments n (slice s offset kk) (drop kk s)).
         snd (Eval run r (Some seg)) = None)"
proof (induction run r s kk n offset result rule: EvalArgs_loop.induct)
  case (1 run r s kk n offset result)
  note Eval.simps [simp del]
  show ?case
  proof (cases "kk < length s")
    case False
    then have d: "drop kk s = []" and sl: "slice s offset kk = slice s offset (length s)"
      by (simp_all add: slice_def)
    obtain v err where ev: "Eval run r (Some (slice s offset (length s))) = (v, err)"
      by (cases "Eval run r (Some (slice s offset (length s)))")
    have unf: "EvalArgs_loop run r s kk n offset result =
       (if n \<noteq> 0 then (None, Some (Error ''nice: mismatched (''))
        else if err \<noteq> None then (None, err) else (append_go result [v], None))"
      using False ev by (simp add: EvalArgs_loop_exit)
    have "n = 0" "err = None" using "1.prems"(2) unf by (auto split: if_splits)
    then show ?thesis using unf ev d sl by (simp add: append_go_def)
  next
    case True
    note lt = True
    let ?c = "s ! kk"
    have dr: "drop kk s = ?c # drop (Suc kk) s"
      using lt by (simp add: Cons_nth_drop_Suc)
    have sn: "slice s offset (Suc kk) = slice s offset kk @ [?c]"
      using lt "1.prems"(1) by (simp add: slice_snoc)
    have le: "offset \<le> kk + 1" using "1.prems"(1) by simp
    show ?thesis
    proof (cases "?c = bslash")
      case True
      note bs = True
      have step: "EvalArgs_loop run r s kk n offset result =
                  EvalArgs_loop run r s (kk + 1 + 1) n offset result"
        using lt bs by (subst EvalArgs_loop.simps) simp
      have le2: "offset \<le> kk + 1 + 1" using "1.prems"(1) by simp
      have ih: "fst (EvalArgs_loop run r s (kk + 1 + 1) n offset result) =
         Some (elems result @ map (\<lambda>seg. fst (Eval run r (Some seg)))
                (segments n (slice s offset (kk + 1 + 1)) (drop (kk + 1 + 1) s)))
           \<and> (\<forall>seg \<in> set (segments n (slice s offset (kk + 1 + 1)) (drop (kk + 1 + 1) s)). snd (Eval run r (Some seg)) = None)"
        using "1.IH"(1) [OF lt bs le2] "1.prems"(2) step by simp
      show ?thesis
      proof (cases "Suc kk < length s")
        case True
        have "drop (Suc kk) s = s ! Suc kk # drop (Suc (Suc kk)) s"
          using True by (simp add: Cons_nth_drop_Suc)
        moreover have "slice s offset (Suc (Suc kk)) = slice s offset kk @ [?c, s ! Suc kk]"
          using True "1.prems"(1) sn slice_snoc [of offset "Suc kk" s] by simp
        ultimately show ?thesis using ih step dr bs by simp
      next
        case False
        then have "drop (Suc kk) s = []" "drop (kk + 1 + 1) s = []" by simp_all
        moreover have "slice s offset (kk + 1 + 1) = slice s offset kk @ [?c]"
          using False lt sn by (simp add: slice_def)
        ultimately show ?thesis using ih step dr bs by simp
      qed
    next
      case False
      note nb = False
      show ?thesis
      proof (cases "?c = CHR ''|'' \<and> n = 0")
        case True
        note pipe = True
        obtain v err where ev: "Eval run r (Some (slice s offset kk)) = (v, err)"
          by (cases "Eval run r (Some (slice s offset kk))")
        have unf: "EvalArgs_loop run r s kk n offset result =
             (if err \<noteq> None then (None, err)
              else EvalArgs_loop run r s (kk + 1) n (kk + 1) (append_go result [v]))"
          using lt nb pipe ev by (subst EvalArgs_loop.simps) simp
        have noerr: "\<not> err \<noteq> None" using "1.prems"(2) unf by (auto split: if_splits)
        have step: "EvalArgs_loop run r s kk n offset result =
             EvalArgs_loop run r s (kk + 1) n (kk + 1) (append_go result [v])"
          using unf noerr by simp
        have ih: "fst (EvalArgs_loop run r s (kk + 1) n (kk + 1) (append_go result [v])) =
           Some (elems (append_go result [v]) @ map (\<lambda>seg. fst (Eval run r (Some seg)))
                  (segments n (slice s (kk + 1) (kk + 1)) (drop (kk + 1) s)))
           \<and> (\<forall>seg \<in> set (segments n (slice s (kk + 1) (kk + 1)) (drop (kk + 1) s)). snd (Eval run r (Some seg)) = None)"
          using "1.IH"(2) [OF lt nb pipe ev [symmetric] noerr] "1.prems"(2) step by simp
        have "slice s (kk + 1) (kk + 1) = []" by (simp add: slice_def)
        then show ?thesis using ih step dr pipe nb ev noerr by simp
      next
        case False
        note np = False
        show ?thesis
        proof (cases "?c = CHR ''(''")
          case True
          have step: "EvalArgs_loop run r s kk n offset result =
               EvalArgs_loop run r s (kk + 1) (n + 1) offset result"
            using lt nb np True by (subst EvalArgs_loop.simps) auto
          have "fst (EvalArgs_loop run r s (kk + 1) (n + 1) offset result) =
             Some (elems result @ map (\<lambda>seg. fst (Eval run r (Some seg)))
                    (segments (n + 1) (slice s offset (kk + 1)) (drop (kk + 1) s)))
           \<and> (\<forall>seg \<in> set (segments (n + 1) (slice s offset (kk + 1)) (drop (kk + 1) s)). snd (Eval run r (Some seg)) = None)"
            using "1.IH"(3) [OF lt nb np True le] "1.prems"(2) step by simp
          then show ?thesis using step dr sn nb np True by simp
        next
          case False
          note no = False
          show ?thesis
          proof (cases "?c = CHR '')''")
            case True
            note cl = True
            have unf: "EvalArgs_loop run r s kk n offset result =
               (if n - 1 < 0 then (None, Some (Error ''nice: mismatched )''))
                else EvalArgs_loop run r s (kk + 1) (n - 1) offset result)"
              using lt cl by (subst EvalArgs_loop.simps) simp
            have nn: "\<not> n - 1 < 0" using "1.prems"(2) unf by (auto split: if_splits)
            have step: "EvalArgs_loop run r s kk n offset result =
                EvalArgs_loop run r s (kk + 1) (n - 1) offset result"
              using unf nn by simp
            have "fst (EvalArgs_loop run r s (kk + 1) (n - 1) offset result) =
               Some (elems result @ map (\<lambda>seg. fst (Eval run r (Some seg)))
                      (segments (n - 1) (slice s offset (kk + 1)) (drop (kk + 1) s)))
           \<and> (\<forall>seg \<in> set (segments (n - 1) (slice s offset (kk + 1)) (drop (kk + 1) s)). snd (Eval run r (Some seg)) = None)"
              using "1.IH"(4) [OF lt nb np no cl nn le] "1.prems"(2) step by simp
            then show ?thesis using step dr sn nb np no cl by simp
          next
            case False
            have step: "EvalArgs_loop run r s kk n offset result =
                EvalArgs_loop run r s (kk + 1) n offset result"
              using lt nb np no False by (subst EvalArgs_loop.simps) auto
            have "fst (EvalArgs_loop run r s (kk + 1) n offset result) =
               Some (elems result @ map (\<lambda>seg. fst (Eval run r (Some seg)))
                      (segments n (slice s offset (kk + 1)) (drop (kk + 1) s)))
           \<and> (\<forall>seg \<in> set (segments n (slice s offset (kk + 1)) (drop (kk + 1) s)). snd (Eval run r (Some seg)) = None)"
              using "1.IH"(5) [OF lt nb np no False le] "1.prems"(2) step by simp
            then show ?thesis using step dr sn nb np no False by auto
          qed
        qed
      qed
    qed
  qed
qed


text \<open>
  C3. For every resolver \<open>r\<close> and every non-nil byte sequence \<open>s\<close> with \<open>k\<close>
  top-level pipes: if \<open>EvalArgs(r, s)\<close> returns no error, it returns exactly \<open>k+1\<close>
  values, and they are the results of evaluating with \<open>Eval\<close>, each without error,
  the \<open>k+1\<close> segments that the top-level pipes cut \<open>s\<close> into, in order. For the nil
  \<open>s\<close>, \<open>EvalArgs\<close> returns a nil sequence and no error.
\<close>

theorem EvalArgs_count:
  assumes "snd (EvalArgs run r (Some s)) = None"
  shows "fst (EvalArgs run r (Some s)) =
           Some (map (\<lambda>seg. fst (Eval run r (Some seg))) (segments 0 [] s))
   \<and> (\<forall>seg \<in> set (segments 0 [] s). snd (Eval run r (Some seg)) = None)
   \<and> length (elems (fst (EvalArgs run r (Some s)))) = top_pipes 0 s + 1
   \<and> EvalArgs run r None = (None, None)"
  using EvalArgs_loop_segments [of 0 0 run r s 0 None] assms
  by (simp add: slice_def segments_length)

theorem EvalArgs_count_witness:
  "snd (EvalArgs probe_run probe_r (Some ''a|(f|c)|'')) = None
   \<and> top_pipes 0 ''a|(f|c)|'' = 2
   \<and> segments 0 [] ''a|(f|c)|'' = [''a'', ''(f|c)'', []]
   \<and> EvalArgs probe_run probe_r (Some ''a|(f|c)|'') =
       (Some [Raw (Some ''a''), Raw (Some ''c''), Raw (Some [])], None)"
proof -
  have e: "EvalArgs probe_run probe_r (Some ''a|(f|c)|'') =
       (Some [Raw (Some ''a''), Raw (Some ''c''), Raw (Some [])], None)"
    by (simp add: EvalArgs_loop.simps Eval_loop.simps slice_def append_go_def probe_r_def)
  then show ?thesis
    using EvalArgs_count [of probe_run probe_r "''a|(f|c)|''"] by simp
qed

section \<open>Escape and Unescape: round trip and the dangling escape byte\<close>

text \<open>What the loop of \<open>Escape\<close> computes, with and without a buffer.\<close>

lemma Escape_loop_Some:
  "result = Some res \<Longrightarrow> Escape_loop s kk result = Some (res @ escaped (drop kk s))"
proof (induction s kk result arbitrary: res rule: Escape_loop.induct)
  case (1 s kk result)
  show ?case
  proof (cases "kk < length s")
    case False
    then show ?thesis using "1.prems" by (subst Escape_loop.simps) simp
  next
    case True
    let ?c = "s ! kk"
    let ?r3 = "Some (res @ (if special ?c then [bslash, ?c] else [?c]))"
    have dr: "drop kk s = ?c # drop (Suc kk) s" using True by (simp add: Cons_nth_drop_Suc)
    have step: "Escape_loop s kk result = Escape_loop s (kk + 1) ?r3"
      using True "1.prems" by (subst Escape_loop.simps) (simp add: append_go_def Let_def)
    have "Escape_loop s (kk + 1) ?r3 =
        Some ((res @ (if special ?c then [bslash, ?c] else [?c])) @ escaped (drop (kk + 1) s))"
      using "1.IH" [OF True refl refl refl refl, of "res @ (if special ?c then [bslash, ?c] else [?c])"]
        "1.prems"
      by (simp add: append_go_def)
    then show ?thesis using step dr by simp
  qed
qed

lemma Escape_loop_None:
  "result = None \<Longrightarrow>
   Escape_loop s kk result =
     (if \<exists>c \<in> set (drop kk s). special c then Some (take kk s @ escaped (drop kk s)) else None)"
proof (induction s kk result rule: Escape_loop.induct)
  case (1 s kk result)
  show ?case
  proof (cases "kk < length s")
    case False
    then show ?thesis using "1.prems" by (subst Escape_loop.simps) simp
  next
    case True
    let ?c = "s ! kk"
    have dr: "drop kk s = ?c # drop (Suc kk) s" using True by (simp add: Cons_nth_drop_Suc)
    have tk: "take (Suc kk) s = take kk s @ [?c]" using True by (simp add: take_Suc_conv_app_nth)
    show ?thesis
    proof (cases "special ?c")
      case True
      have "Escape_loop s kk result = Escape_loop s (kk + 1) (Some (take kk s @ [bslash, ?c]))"
        using \<open>kk < length s\<close> True "1.prems"
        by (subst Escape_loop.simps) (simp add: append_go_def Let_def slice_def)
      then show ?thesis
        using True dr Escape_loop_Some [OF refl, of s "kk + 1" "take kk s @ [bslash, ?c]"]
        by simp
    next
      case False
      have step: "Escape_loop s kk result = Escape_loop s (kk + 1) None"
        using \<open>kk < length s\<close> False "1.prems"
        by (subst Escape_loop.simps) (simp add: append_go_def Let_def)
      have "Escape_loop s (kk + 1) None =
         (if \<exists>c \<in> set (drop (kk + 1) s). special c
          then Some (take (kk + 1) s @ escaped (drop (kk + 1) s)) else None)"
        using "1.IH" [OF \<open>kk < length s\<close> refl refl refl refl] False "1.prems" by simp
      then show ?thesis using step dr tk False by simp
    qed
  qed
qed

lemma Escape_eq:
  "Escape s = (if \<exists>c \<in> set (elems s). special c then Some (escaped (elems s)) else s)"
  using Escape_loop_None [OF refl, of "elems s" 0] by (simp add: Escape_def)

text \<open>What the loop of \<open>Unescape\<close> computes; it never panics.\<close>

lemma unescaped_length: "length (unescaped slash xs) \<le> length xs"
  by (induction slash xs rule: unescaped.induct) auto

lemma Unescape_loop_exit:
  "\<not> kk < length s \<Longrightarrow> Unescape_loop s kk result offset slash = Inr (result, offset)"
  by (subst Unescape_loop.simps) simp

lemma Unescape_loop_skip:
  "kk < length s \<Longrightarrow> \<not> slash \<Longrightarrow> s ! kk = bslash \<Longrightarrow>
   Unescape_loop s kk result offset slash = Unescape_loop s (kk + 1) result offset True"
  by (subst Unescape_loop.simps) simp

lemma Unescape_loop_store:
  "kk < length s \<Longrightarrow> slash \<or> s ! kk \<noteq> bslash \<Longrightarrow> offset < length buf \<Longrightarrow>
   Unescape_loop s kk (Some buf) offset slash =
     Unescape_loop s (kk + 1) (Some (buf[offset := s ! kk])) (offset + 1) False"
  by (subst Unescape_loop.simps) (auto simp: store_def Let_def)

lemma Unescape_loop_alloc:
  "kk < length s \<Longrightarrow> slash \<Longrightarrow> 0 < kk \<Longrightarrow>
   Unescape_loop s kk None offset slash =
     Unescape_loop s (kk + 1)
       (Some ((take (kk - 1) s @ drop (kk - 1) (replicate (length s) (CHR 0x00)))[kk - 1 := s ! kk]))
       (kk - 1 + 1) False"
  by (subst Unescape_loop.simps) (auto simp: store_def make_copy_def slice_def Let_def)

lemma Unescape_loop_pass:
  "kk < length s \<Longrightarrow> \<not> slash \<Longrightarrow> s ! kk \<noteq> bslash \<Longrightarrow>
   Unescape_loop s kk None offset slash = Unescape_loop s (kk + 1) None offset False"
  by (subst Unescape_loop.simps) (auto simp: Let_def)

lemma Unescape_loop_buffer:
  "length buf = length s \<Longrightarrow> offset + (length s - kk) \<le> length s \<Longrightarrow>
   \<exists>buf'. Unescape_loop s kk (Some buf) offset slash =
            Inr (Some buf', offset + length (unescaped slash (drop kk s)))
          \<and> length buf' = length s
          \<and> take (offset + length (unescaped slash (drop kk s))) buf' =
              take offset buf @ unescaped slash (drop kk s)"
proof (induction "length s - kk" arbitrary: kk buf offset slash)
  case 0
  then have "\<not> kk < length s" by simp
  then show ?case using 0 by (simp add: Unescape_loop_exit)
next
  case (Suc m)
  then have lt: "kk < length s" by simp
  let ?c = "s ! kk"
  have dr: "drop kk s = ?c # drop (Suc kk) s" using lt by (simp add: Cons_nth_drop_Suc)
  have m: "m = length s - (kk + 1)" using Suc.hyps(2) by simp
  show ?case
  proof (cases "\<not> slash \<and> ?c = bslash")
    case True
    have "offset + (length s - (kk + 1)) \<le> length s" using Suc.prems(2) by simp
    from Suc.hyps(1) [OF m Suc.prems(1) this, of True]
    show ?thesis using True lt dr by (simp add: Unescape_loop_skip)
  next
    case False
    then have cond: "slash \<or> ?c \<noteq> bslash" by simp
    have off: "offset < length buf" using Suc.prems lt by simp
    have step: "Unescape_loop s kk (Some buf) offset slash =
        Unescape_loop s (kk + 1) (Some (buf[offset := ?c])) (offset + 1) False"
      using Unescape_loop_store [OF lt cond off] .
    have l': "length (buf[offset := ?c]) = length s" using Suc.prems(1) by simp
    have o': "offset + 1 + (length s - (kk + 1)) \<le> length s" using Suc.prems(2) lt by simp
    have tk: "take (offset + 1) (buf[offset := ?c]) = take offset buf @ [?c]"
      using off by (simp add: take_Suc_conv_app_nth)
    have un: "unescaped slash (drop kk s) = ?c # unescaped False (drop (kk + 1) s)"
      using False dr by auto
    from Suc.hyps(1) [OF m l' o', of False]
    show ?thesis using step tk un by auto
  qed
qed


lemma take_store:
  "length pre = p \<Longrightarrow> zs \<noteq> [] \<Longrightarrow> take (p + 1) ((pre @ zs)[p := c]) = pre @ [c]"
  by (cases zs) (simp_all add: list_update_append)

lemma Unescape_loop_nil:
  "(slash \<longrightarrow> 0 < kk) \<Longrightarrow>
   (\<not> escape_pair slash (drop kk s) \<longrightarrow>
      Unescape_loop s kk None offset slash = Inr (None, offset))
   \<and> (escape_pair slash (drop kk s) \<longrightarrow>
      (\<exists>buf' n. Unescape_loop s kk None offset slash = Inr (Some buf', n)
         \<and> n \<le> length buf'
         \<and> take n buf' =
             take (if slash then kk - 1 else kk) s @ unescaped slash (drop kk s)))"
proof (induction "length s - kk" arbitrary: kk slash)
  case 0
  then have "\<not> kk < length s" by simp
  then show ?case by (simp add: Unescape_loop_exit)
next
  case (Suc m)
  then have lt: "kk < length s" by simp
  let ?c = "s ! kk"
  have dr: "drop kk s = ?c # drop (Suc kk) s" using lt by (simp add: Cons_nth_drop_Suc)
  have m: "m = length s - (kk + 1)" using Suc.hyps(2) by simp
  show ?case
  proof (cases slash)
    case True
    then have pos: "0 < kk" using Suc.prems by simp
    let ?buf = "(take (kk - 1) s @ drop (kk - 1) (replicate (length s) (CHR 0x00)))[kk - 1 := ?c]"
    have step: "Unescape_loop s kk None offset slash =
        Unescape_loop s (kk + 1) (Some ?buf) (kk - 1 + 1) False"
      using Unescape_loop_alloc [OF lt True pos] .
    have len: "length ?buf = length s" using lt by simp
    have o': "kk - 1 + 1 + (length s - (kk + 1)) \<le> length s" using lt pos by simp
    have tk: "take (kk - 1 + 1) ?buf = take (kk - 1) s @ [?c]"
      using lt pos
        take_store [of "take (kk - 1) s" "kk - 1" "drop (kk - 1) (replicate (length s) (CHR 0x00))" ?c]
      by simp
    obtain buf' where b:
      "Unescape_loop s (kk + 1) (Some ?buf) (kk - 1 + 1) False =
         Inr (Some buf', kk - 1 + 1 + length (unescaped False (drop (kk + 1) s)))"
      "length buf' = length s"
      "take (kk - 1 + 1 + length (unescaped False (drop (kk + 1) s))) buf' =
         take (kk - 1 + 1) ?buf @ unescaped False (drop (kk + 1) s)"
      using Unescape_loop_buffer [OF len o', of False] by blast
    have "length (unescaped False (drop (kk + 1) s)) \<le> length s - (kk + 1)"
      using unescaped_length [of False "drop (kk + 1) s"] by simp
    then have "kk - 1 + 1 + length (unescaped False (drop (kk + 1) s)) \<le> length buf'"
      using b(2) lt pos by simp
    moreover have "unescaped slash (drop kk s) = ?c # unescaped False (drop (kk + 1) s)"
      using True dr by simp
    moreover have "escape_pair slash (drop kk s)" using True dr by simp
    ultimately show ?thesis using step b tk True by auto
  next
    case False
    note ns = False
    show ?thesis
    proof (cases "?c = bslash")
      case True
      have step: "Unescape_loop s kk None offset slash =
          Unescape_loop s (kk + 1) None offset True"
        using Unescape_loop_skip [OF lt ns True] .
      have "escape_pair slash (drop kk s) = escape_pair True (drop (kk + 1) s)"
        using ns True dr by simp
      moreover have "unescaped slash (drop kk s) = unescaped True (drop (kk + 1) s)"
        using ns True dr by simp
      ultimately show ?thesis
        using Suc.hyps(1) [OF m, of True] step ns by simp
    next
      case False
      have step: "Unescape_loop s kk None offset slash =
          Unescape_loop s (kk + 1) None offset False"
        using Unescape_loop_pass [OF lt ns False] .
      have "escape_pair slash (drop kk s) = escape_pair False (drop (kk + 1) s)"
        using ns False dr by simp
      moreover have "unescaped slash (drop kk s) = ?c # unescaped False (drop (kk + 1) s)"
        using ns False dr by simp
      moreover have "take (kk + 1) s = take kk s @ [?c]"
        using lt by (simp add: take_Suc_conv_app_nth)
      ultimately show ?thesis
        using Suc.hyps(1) [OF m, of False] step ns by simp
    qed
  qed
qed

lemma Unescape_eq:
  "Unescape s =
     Inr (if escape_pair False (elems s) then Some (unescaped False (elems s)) else s)"
proof (cases "escape_pair False (elems s)")
  case False
  then show ?thesis
    using Unescape_loop_nil [of False 0 "elems s" 0] by (simp add: Unescape_def)
next
  case True
  then obtain buf' n where
    "Unescape_loop (elems s) 0 None 0 False = Inr (Some buf', n)" "n \<le> length buf'"
    "take n buf' = unescaped False (elems s)"
    using Unescape_loop_nil [of False 0 "elems s" 0] by auto
  then show ?thesis using True by (simp add: Unescape_def slice_def)
qed

lemma unescaped_escaped: "unescaped False (escaped xs) = xs"
  by (induction xs) (auto simp: special_def)

lemma escape_pair_escaped: "escape_pair False (escaped xs) = (\<exists>c \<in> set xs. special c)"
  by (induction xs) (auto simp: special_def)

lemma escape_pair_plain: "\<forall>c \<in> set xs. c \<noteq> bslash \<Longrightarrow> \<not> escape_pair False xs"
  by (induction xs) auto

text \<open>
  C2. For every byte sequence \<open>x\<close> (nil included), \<open>Unescape(Escape(x))\<close> returns
  \<open>x\<close>; in particular \<open>Unescape\<close> does not panic on the output of \<open>Escape\<close>.
\<close>

theorem Unescape_Escape:
  "Unescape (Escape x) = Inr x"
proof (cases "\<exists>c \<in> set (elems x). special c")
  case True
  then have "elems x \<noteq> []" by auto
  then have "x = Some (elems x)" by (cases x) simp_all
  then show ?thesis
    using True by (simp add: Escape_eq Unescape_eq escape_pair_escaped unescaped_escaped)
next
  case False
  then have "\<forall>c \<in> set (elems x). c \<noteq> bslash" by (auto simp: special_def)
  then have "\<not> escape_pair False (elems x)" by (rule escape_pair_plain)
  then show ?thesis using False by (simp add: Escape_eq Unescape_eq)
qed

text \<open>The string \<open>hello| world()\<close> of \<open>TestNiceJSON\<close>.\<close>

theorem Unescape_Escape_witness:
  "Escape (Some ''hello| world()'') =
     Some (''hello'' @ [bslash] @ ''| world'' @ [bslash] @ ''('' @ [bslash] @ '')'')
   \<and> Unescape (Escape (Some ''hello| world()'')) = Inr (Some ''hello| world()'')"
  using Unescape_Escape [of "Some ''hello| world()''"]
  by (simp add: Escape_eq special_def)

text \<open>
  C4. By the specification, for a byte sequence that ends with an escape byte with
  nothing after it (and a byte other than the escape byte before it), \<open>Unescape\<close>
  returns a strictly shorter sequence, without the dangling escape byte. The code does so only
  once its buffer exists, that is when an earlier escape byte was followed by a byte,
  as for the three bytes escape, open bracket, escape. For the two bytes \<open>a\<close>, escape
  the buffer is never made and \<open>Unescape\<close> returns its input, both bytes.
\<close>

theorem Unescape_dangling_escape:
  "Unescape (Some (''a'' @ [bslash])) = Inr (Some (''a'' @ [bslash]))
   \<and> Unescape (Some ([bslash] @ ''('' @ [bslash])) = Inr (Some ''('')"
  by (simp add: Unescape_def Unescape_loop.simps make_copy_def store_def slice_def)

end
